theory Spec2Isabelle
  imports Main "HOL-Library.Word"
begin

unbundle bit_operations_syntax

section \<open>Data model\<close>

text \<open>
  The repository is one Python class, \<^verbatim>\<open>MerkleTree\<close> in \<^verbatim>\<open>fri/merkle.py\<close>: a binary Merkle
  commitment over a list of data elements, with the three recursive functions
  \<^verbatim>\<open>commit_\<close>, \<^verbatim>\<open>open_\<close>, \<^verbatim>\<open>verify_\<close> on digests and the three wrappers
  \<^verbatim>\<open>commit\<close>, \<^verbatim>\<open>open\<close>, \<^verbatim>\<open>verify\<close> that hash the raw elements first.

  A digest is a Python \<^verbatim>\<open>bytes\<close> object, here a list of 8-bit words. The hash
  \<^verbatim>\<open>MerkleTree.H(x).digest()\<close> (blake2b) is an opaque primitive: every function below takes
  it as the parameter \<open>H\<close>, and nothing is assumed about it. The wrappers serialise an
  element with \<^verbatim>\<open>bytes(da)\<close>; the element type is left open and its serialisation is the
  parameter \<open>bytes_of\<close>. Indices are Python integers, hence \<open>int\<close>.

  An identifier cannot end in an underscore here, so \<^verbatim>\<open>commit_\<close>, \<^verbatim>\<open>open_\<close> and \<^verbatim>\<open>verify_\<close>
  are \<open>commit_rec\<close>, \<open>open_rec\<close> and \<open>verify_rec\<close>; and \<^verbatim>\<open>open\<close> is a keyword, so
  the wrapper \<^verbatim>\<open>open\<close> is \<open>open_data\<close>.
\<close>

type_synonym byte = "8 word"
type_synonym bytes = "byte list"

text \<open>
  The two exceptions the code can raise: a failed \<^verbatim>\<open>assert\<close> with its message, and the
  \<^verbatim>\<open>IndexError\<close> of \<^verbatim>\<open>path[0]\<close> on an empty list. A call yields \<open>Some (Inr v)\<close> when it
  returns \<open>v\<close>, \<open>Some (Inl e)\<close> when it raises \<open>e\<close>, and \<open>None\<close> when its recursion
  does not come to an end.
\<close>

datatype error = AssertionError string | IndexError

section \<open>The operations\<close>

text \<open>
  The guard of \<^verbatim>\<open>commit_\<close> and \<^verbatim>\<open>open_\<close>,
  \<^verbatim>\<open>len(leafs) & (len(leafs)-1) == 0\<close>, on Python's unbounded integers:
  for length 0 the right operand is \<open>-1\<close>.
\<close>

definition length_guard :: "nat \<Rightarrow> bool" where
  "length_guard n \<longleftrightarrow> (int n AND (int n - 1)) = 0"

text \<open>
  \<^verbatim>\<open>commit_\<close> (lines 6 to 11). The left half is committed before the right one, and an
  exception of either call is passed on.
\<close>

partial_function (option) commit_rec ::
  "(bytes \<Rightarrow> bytes) \<Rightarrow> bytes list \<Rightarrow> (error + bytes) option" where
  "commit_rec H leafs =
     (if \<not> length_guard (length leafs)
      then Some (Inl (AssertionError ''length must be power of two''))
      else if length leafs = 1 then Some (Inr (leafs ! 0))
      else
        Option.bind (commit_rec H (take (length leafs div 2) leafs)) (\<lambda>l.
          case l of Inl e \<Rightarrow> Some (Inl e) | Inr dl \<Rightarrow>
        Option.bind (commit_rec H (drop (length leafs div 2) leafs)) (\<lambda>r.
          case r of Inl e \<Rightarrow> Some (Inl e) | Inr dr \<Rightarrow>
        Some (Inr (H (dl @ dr))))))"

text \<open>
  \<^verbatim>\<open>open_\<close> (lines 13 to 21). The test \<^verbatim>\<open>index < (len(leafs)/2)\<close> compares an integer
  with the float quotient, which Python does exactly: it is \<open>2 * index < len\<close>. In the
  branch for length 2 the index is 0 or 1, so \<^verbatim>\<open>leafs[1 - index]\<close> is in range.
\<close>

partial_function (option) open_rec ::
  "(bytes \<Rightarrow> bytes) \<Rightarrow> int \<Rightarrow> bytes list \<Rightarrow> (error + bytes list) option" where
  "open_rec H index leafs =
     (if \<not> length_guard (length leafs)
      then Some (Inl (AssertionError ''length must be power of two''))
      else if \<not> (0 \<le> index \<and> index < int (length leafs))
      then Some (Inl (AssertionError ''cannot open invalid index''))
      else if length leafs = 2 then Some (Inr [leafs ! nat (1 - index)])
      else if 2 * index < int (length leafs) then
        Option.bind (open_rec H index (take (length leafs div 2) leafs)) (\<lambda>p.
          case p of Inl e \<Rightarrow> Some (Inl e) | Inr ps \<Rightarrow>
        Option.bind (commit_rec H (drop (length leafs div 2) leafs)) (\<lambda>c.
          case c of Inl e \<Rightarrow> Some (Inl e) | Inr d \<Rightarrow>
        Some (Inr (ps @ [d]))))
      else
        Option.bind (open_rec H (index - int (length leafs div 2))
                       (drop (length leafs div 2) leafs)) (\<lambda>p.
          case p of Inl e \<Rightarrow> Some (Inl e) | Inr ps \<Rightarrow>
        Option.bind (commit_rec H (take (length leafs div 2) leafs)) (\<lambda>c.
          case c of Inl e \<Rightarrow> Some (Inl e) | Inr d \<Rightarrow>
        Some (Inr (ps @ [d])))))"

text \<open>
  \<^verbatim>\<open>verify_\<close> (lines 23 to 34). \<^verbatim>\<open>1 << len(path)\<close> is \<open>push_bit (length path) 1\<close> and
  \<^verbatim>\<open>index >> 1\<close> is \<open>drop_bit 1 index\<close>. When the path is empty the slice \<^verbatim>\<open>path[1:]\<close> is
  empty too, but \<^verbatim>\<open>path[0]\<close>, evaluated for the last argument of the recursive call,
  raises \<^verbatim>\<open>IndexError\<close> before that call is made.
\<close>

partial_function (option) verify_rec ::
  "(bytes \<Rightarrow> bytes) \<Rightarrow> bytes \<Rightarrow> int \<Rightarrow> bytes list \<Rightarrow> bytes \<Rightarrow> (error + bool) option" where
  "verify_rec H root index path leaf =
     (if \<not> (0 \<le> index \<and> index < push_bit (length path) 1)
      then Some (Inl (AssertionError ''cannot verify invalid index''))
      else if length path = 1 then
        (if index = 0 then Some (Inr (root = H (leaf @ path ! 0)))
         else Some (Inr (root = H (path ! 0 @ leaf))))
      else
        (if index mod 2 = 0 then
           (if path = [] then Some (Inl IndexError)
            else verify_rec H root (drop_bit 1 index) (drop 1 path) (H (leaf @ path ! 0)))
         else
           (if path = [] then Some (Inl IndexError)
            else verify_rec H root (drop_bit 1 index) (drop 1 path) (H (path ! 0 @ leaf)))))"

text \<open>The wrappers (lines 36 to 43): every element is hashed, then the recursion runs.\<close>

definition commit ::
  "(bytes \<Rightarrow> bytes) \<Rightarrow> ('a \<Rightarrow> bytes) \<Rightarrow> 'a list \<Rightarrow> (error + bytes) option" where
  "commit H bytes_of data_array = commit_rec H (map (\<lambda>da. H (bytes_of da)) data_array)"

definition open_data ::
  "(bytes \<Rightarrow> bytes) \<Rightarrow> ('a \<Rightarrow> bytes) \<Rightarrow> int \<Rightarrow> 'a list \<Rightarrow> (error + bytes list) option" where
  "open_data H bytes_of index data_array =
     open_rec H index (map (\<lambda>da. H (bytes_of da)) data_array)"

definition verify ::
  "(bytes \<Rightarrow> bytes) \<Rightarrow> ('a \<Rightarrow> bytes) \<Rightarrow> bytes \<Rightarrow> int \<Rightarrow> bytes list \<Rightarrow> 'a
     \<Rightarrow> (error + bool) option" where
  "verify H bytes_of root index path data_element =
     verify_rec H root index path (H (bytes_of data_element))"

text \<open>
  The bodies once more, with what they call as parameters: \<open>hash_call\<close> stands for
  \<^verbatim>\<open>MerkleTree.H(x).digest()\<close>, and \<open>commit_call\<close>, \<open>open_call\<close>, \<open>verify_call\<close> for the
  calls of \<^verbatim>\<open>commit_\<close>, \<^verbatim>\<open>open_\<close>, \<^verbatim>\<open>verify_\<close> written in the body. Each of them may
  fail to return (\<open>None\<close>), and the body then does not return either: Python evaluates
  a call before it uses the result. This makes the order of evaluation visible. A body
  that yields its result whatever the parameters are, also when they never return, has
  called none of them; a body that yields the same result for any two parameters that
  agree on certain arguments has called them on those arguments only. With the real
  hash and the functions themselves as parameters the bodies are the functions above
  (lemmas \<open>commit_rec_body_eq\<close>, \<open>open_rec_body_eq\<close>, \<open>verify_rec_body_eq\<close>,
  \<open>open_data_body_eq\<close>, \<open>verify_body_eq\<close>).

  In the wrappers the list comprehension hashes the elements one after the other
  (\<open>those\<close> yields \<open>None\<close> as soon as one hash does not return), and only then is
  \<^verbatim>\<open>open_\<close> or \<^verbatim>\<open>verify_\<close> entered.
\<close>

definition commit_rec_body ::
  "(bytes \<Rightarrow> bytes option) \<Rightarrow> (bytes list \<Rightarrow> (error + bytes) option) \<Rightarrow> bytes list
     \<Rightarrow> (error + bytes) option" where
  "commit_rec_body hash_call commit_call leafs =
     (if \<not> length_guard (length leafs)
      then Some (Inl (AssertionError ''length must be power of two''))
      else if length leafs = 1 then Some (Inr (leafs ! 0))
      else
        Option.bind (commit_call (take (length leafs div 2) leafs)) (\<lambda>l.
          case l of Inl e \<Rightarrow> Some (Inl e) | Inr dl \<Rightarrow>
        Option.bind (commit_call (drop (length leafs div 2) leafs)) (\<lambda>r.
          case r of Inl e \<Rightarrow> Some (Inl e) | Inr dr \<Rightarrow>
        Option.bind (hash_call (dl @ dr)) (\<lambda>d. Some (Inr d)))))"

definition open_rec_body ::
  "(int \<Rightarrow> bytes list \<Rightarrow> (error + bytes list) option) \<Rightarrow> (bytes list \<Rightarrow> (error + bytes) option)
     \<Rightarrow> int \<Rightarrow> bytes list \<Rightarrow> (error + bytes list) option" where
  "open_rec_body open_call commit_call index leafs =
     (if \<not> length_guard (length leafs)
      then Some (Inl (AssertionError ''length must be power of two''))
      else if \<not> (0 \<le> index \<and> index < int (length leafs))
      then Some (Inl (AssertionError ''cannot open invalid index''))
      else if length leafs = 2 then Some (Inr [leafs ! nat (1 - index)])
      else if 2 * index < int (length leafs) then
        Option.bind (open_call index (take (length leafs div 2) leafs)) (\<lambda>p.
          case p of Inl e \<Rightarrow> Some (Inl e) | Inr ps \<Rightarrow>
        Option.bind (commit_call (drop (length leafs div 2) leafs)) (\<lambda>c.
          case c of Inl e \<Rightarrow> Some (Inl e) | Inr d \<Rightarrow>
        Some (Inr (ps @ [d]))))
      else
        Option.bind (open_call (index - int (length leafs div 2))
                       (drop (length leafs div 2) leafs)) (\<lambda>p.
          case p of Inl e \<Rightarrow> Some (Inl e) | Inr ps \<Rightarrow>
        Option.bind (commit_call (take (length leafs div 2) leafs)) (\<lambda>c.
          case c of Inl e \<Rightarrow> Some (Inl e) | Inr d \<Rightarrow>
        Some (Inr (ps @ [d])))))"

definition verify_rec_body ::
  "(bytes \<Rightarrow> bytes option) \<Rightarrow> (bytes \<Rightarrow> int \<Rightarrow> bytes list \<Rightarrow> bytes \<Rightarrow> (error + bool) option)
     \<Rightarrow> bytes \<Rightarrow> int \<Rightarrow> bytes list \<Rightarrow> bytes \<Rightarrow> (error + bool) option" where
  "verify_rec_body hash_call verify_call root index path leaf =
     (if \<not> (0 \<le> index \<and> index < push_bit (length path) 1)
      then Some (Inl (AssertionError ''cannot verify invalid index''))
      else if length path = 1 then
        (if index = 0
         then Option.bind (hash_call (leaf @ path ! 0)) (\<lambda>d. Some (Inr (root = d)))
         else Option.bind (hash_call (path ! 0 @ leaf)) (\<lambda>d. Some (Inr (root = d))))
      else
        (if index mod 2 = 0 then
           (if path = [] then Some (Inl IndexError)
            else Option.bind (hash_call (leaf @ path ! 0))
                   (\<lambda>d. verify_call root (drop_bit 1 index) (drop 1 path) d))
         else
           (if path = [] then Some (Inl IndexError)
            else Option.bind (hash_call (path ! 0 @ leaf))
                   (\<lambda>d. verify_call root (drop_bit 1 index) (drop 1 path) d))))"



text \<open>
  Not a function of the source: the digest that \<^verbatim>\<open>verify_\<close> has recomputed once the
  whole path is consumed, as a plain fold. It is related to \<open>verify_rec\<close> by
  \<open>verify_rec_fold\<close> below and serves to state what \<open>open_rec\<close> produces.
\<close>

fun fold_path :: "(bytes \<Rightarrow> bytes) \<Rightarrow> int \<Rightarrow> bytes list \<Rightarrow> bytes \<Rightarrow> bytes" where
  "fold_path H index [] leaf = leaf"
| "fold_path H index (p # ps) leaf =
     fold_path H (index div 2) ps (if index mod 2 = 0 then H (leaf @ p) else H (p @ leaf))"

declare commit_rec.simps [code] open_rec.simps [code] verify_rec.simps [code]

section \<open>The length guard\<close>

text \<open>
  The bit trick accepts the powers of two and, besides them, only 0.
\<close>

lemma length_guard_pow2: "length_guard (2 ^ k)"
proof -
  have "(2::int) ^ k AND mask k = 0"
    by (simp add: take_bit_eq_mask [symmetric] take_bit_of_exp)
  then show ?thesis by (simp add: length_guard_def mask_eq_exp_minus_1)
qed

lemma length_guard_0: "length_guard 0"
  by (simp add: length_guard_def)

lemma and_pred_even: "(2 * m) AND (2 * m - 1) = 2 * (m AND (m - 1))" for m :: int
proof -
  have "(2 * m - 1) div 2 = m - 1" by linarith
  then show ?thesis by (subst and_int_rec) simp
qed

lemma and_pred_odd: "(1 + 2 * m) AND (2 * m) = 2 * m" for m :: int
  by (subst and_int_rec) simp

lemma length_guard_imp_pow2: "length_guard n \<Longrightarrow> 0 < n \<Longrightarrow> \<exists>k. n = 2 ^ k"
proof (induction n rule: less_induct)
  case (less n)
  show ?case
  proof (cases "even n")
    case True
    then obtain m where m: "n = 2 * m" by (auto elim: evenE)
    with less.prems have "0 < m" by simp
    from less.prems(1) have "2 * (int m AND (int m - 1)) = 0"
      unfolding length_guard_def m using and_pred_even [of "int m"] by simp
    then have "length_guard m" by (simp add: length_guard_def)
    with less.IH [of m] \<open>0 < m\<close> m obtain k where "m = 2 ^ k" by auto
    with m have "n = 2 ^ Suc k" by simp
    then show ?thesis by blast
  next
    case False
    then obtain m where m: "n = 2 * m + 1" by (auto elim: oddE)
    from less.prems(1) have "2 * int m = 0"
      unfolding length_guard_def m using and_pred_odd [of "int m"] by simp
    with m have "n = 2 ^ 0" by simp
    then show ?thesis by blast
  qed
qed

lemma length_guard_iff: "length_guard n \<longleftrightarrow> n = 0 \<or> (\<exists>k. n = 2 ^ k)"
  using length_guard_imp_pow2 [of n] length_guard_pow2 length_guard_0 by auto

section \<open>Commit\<close>

text \<open>
  On a list of length \<open>2 ^ k\<close> the recursion returns a digest. On the empty list the guard
  passes, no base case applies and both recursive calls are on the empty list again:
  no value is ever returned.
\<close>

lemma commit_rec_single: "commit_rec H [d] = Some (Inr d)"
  by (simp add: commit_rec.simps length_guard_def)

lemma commit_rec_split:
  assumes "length leafs = 2 ^ Suc k"
    and "commit_rec H (take (length leafs div 2) leafs) = Some (Inr l)"
    and "commit_rec H (drop (length leafs div 2) leafs) = Some (Inr r)"
  shows "commit_rec H leafs = Some (Inr (H (l @ r)))"
proof -
  have g: "length_guard (length leafs)" using assms(1) length_guard_pow2 [of "Suc k"] by simp
  have n1: "length leafs \<noteq> Suc 0" using assms(1) by simp
  show ?thesis
    by (subst commit_rec.simps) (simp add: g n1 assms(2,3))
qed

lemma commit_rec_total: "length leafs = 2 ^ k \<Longrightarrow> \<exists>d. commit_rec H leafs = Some (Inr d)"
proof (induction k arbitrary: leafs)
  case 0
  then obtain d where "leafs = [d]" by (cases leafs) auto
  then show ?case by (simp add: commit_rec_single)
next
  case (Suc k)
  have h: "length leafs div 2 = 2 ^ k" using Suc.prems by simp
  have "length (take (length leafs div 2) leafs) = 2 ^ k" using Suc.prems by (simp add: h)
  from Suc.IH [OF this] obtain l where l: "commit_rec H (take (length leafs div 2) leafs) = Some (Inr l)" ..
  have "length (drop (length leafs div 2) leafs) = 2 ^ k" using Suc.prems by (simp add: h)
  from Suc.IH [OF this] obtain r where r: "commit_rec H (drop (length leafs div 2) leafs) = Some (Inr r)" ..
  from commit_rec_split [OF Suc.prems l r] show ?case by blast
qed

lemma commit_rec_Some_nonempty:
  assumes "commit_rec H leafs = Some y"
  shows "leafs \<noteq> []"
proof (rule commit_rec.raw_induct [where P = "\<lambda>H leafs y. leafs \<noteq> []", OF _ assms])
  fix f :: "(bytes \<Rightarrow> bytes) \<Rightarrow> bytes list \<Rightarrow> (error + bytes) option"
  fix G xs r
  assume IH: "\<And>G xs r. f G xs = Some r \<Longrightarrow> xs \<noteq> []"
  assume body: "(if \<not> length_guard (length xs)
      then Some (Inl (AssertionError ''length must be power of two''))
      else if length xs = 1 then Some (Inr (xs ! 0))
           else Option.bind (f G (take (length xs div 2) xs))
                (\<lambda>l. case l of Inl e \<Rightarrow> Some (Inl e)
                     | Inr dl \<Rightarrow>
                         Option.bind (f G (drop (length xs div 2) xs))
                         (\<lambda>r. case r of Inl e \<Rightarrow> Some (Inl e)
                              | Inr dr \<Rightarrow> Some (Inr (G (dl @ dr)))))) = Some r"
  show "xs \<noteq> []"
  proof
    assume "xs = []"
    with body obtain l where "f G [] = Some l"
      by (auto simp: length_guard_def bind_eq_Some_conv)
    with IH show False by blast
  qed
qed

lemma commit_rec_Nil: "commit_rec H [] = None"
  using commit_rec_Some_nonempty [of H "[]"] by (cases "commit_rec H []") auto

section \<open>Verify\<close>

text \<open>
  With a non-empty path and an index below \<open>2 ^ length path\<close>, the recursion compares the
  root with the fold of the path.
\<close>

lemma verify_rec_invalid:
  "\<not> (0 \<le> i \<and> i < 2 ^ length path) \<Longrightarrow>
     verify_rec H root i path leaf = Some (Inl (AssertionError ''cannot verify invalid index''))"
  by (subst verify_rec.simps) (simp add: push_bit_of_1)

lemma verify_rec_one:
  "0 \<le> i \<Longrightarrow> i < 2 \<Longrightarrow>
     verify_rec H root i [p] leaf =
       Some (Inr (root = (if i mod 2 = 0 then H (leaf @ p) else H (p @ leaf))))"
  by (subst verify_rec.simps) (auto simp add: push_bit_of_1)

lemma verify_rec_more:
  "0 \<le> i \<Longrightarrow> i < 2 ^ length (p # q # ps) \<Longrightarrow>
     verify_rec H root i (p # q # ps) leaf =
       verify_rec H root (i div 2) (q # ps) (if i mod 2 = 0 then H (leaf @ p) else H (p @ leaf))"
  by (subst verify_rec.simps) (simp add: push_bit_of_1 drop_bit_Suc)

lemma verify_rec_fold:
  "path \<noteq> [] \<Longrightarrow> 0 \<le> i \<Longrightarrow> i < 2 ^ length path \<Longrightarrow>
     verify_rec H root i path leaf = Some (Inr (root = fold_path H i path leaf))"
proof (induction path arbitrary: i leaf)
  case Nil
  then show ?case by simp
next
  case (Cons p ps)
  show ?case
  proof (cases ps)
    case Nil
    with Cons.prems show ?thesis by (simp add: verify_rec_one)
  next
    case (Cons q qs)
    have d: "0 \<le> i div 2" "i div 2 < 2 ^ length ps" using Cons.prems by auto
    have "verify_rec H root i (p # ps) leaf =
       verify_rec H root (i div 2) ps (if i mod 2 = 0 then H (leaf @ p) else H (p @ leaf))"
      using Cons.prems verify_rec_more [of i p q qs H root leaf] Cons by simp
    also have "\<dots> = Some (Inr (root = fold_path H (i div 2) ps
        (if i mod 2 = 0 then H (leaf @ p) else H (p @ leaf))))"
      using Cons.IH [OF _ d] Cons by simp
    finally show ?thesis by simp
  qed
qed

lemma fold_path_append:
  "0 \<le> i \<Longrightarrow> fold_path H i (ps @ qs) leaf = fold_path H (i div 2 ^ length ps) qs (fold_path H i ps leaf)"
proof (induction ps arbitrary: i leaf)
  case Nil
  then show ?case by simp
next
  case (Cons p ps)
  have "i div 2 div 2 ^ length ps = i div (2 * 2 ^ length ps)"
    by (simp add: zdiv_zmult2_eq)
  with Cons show ?case by simp
qed

lemma fold_path_shift:
  "fold_path H (i - 2 ^ length ps) ps leaf = fold_path H i ps leaf"
proof (induction ps arbitrary: i leaf)
  case Nil
  then show ?case by simp
next
  case (Cons p ps)
  have "(i - 2 * 2 ^ length ps) div 2 = i div 2 - 2 ^ length ps" by simp
  moreover have "(i - 2 * 2 ^ length ps) mod 2 = i mod 2"
    by (metis minus_mult_div_eq_mod mod_mult_self1_is_0 mod_diff_right_eq diff_zero)
  ultimately show ?case using Cons.IH by simp
qed

section \<open>Open\<close>

text \<open>
  The main induction: on \<open>2 ^ Suc k\<close> leaves the path has \<open>Suc k\<close> entries and folds,
  from the opened leaf, to the committed root.
\<close>

lemma open_rec_invalid:
  "\<not> (0 \<le> i \<and> i < int (length leafs)) \<Longrightarrow>
     open_rec H i leafs = Some (Inl (AssertionError ''length must be power of two'')) \<or>
     open_rec H i leafs = Some (Inl (AssertionError ''cannot open invalid index''))"
  by (subst (1 2) open_rec.simps) simp

lemma open_rec_two:
  "length leafs = 2 \<Longrightarrow> 0 \<le> i \<Longrightarrow> i < 2 \<Longrightarrow>
     open_rec H i leafs = Some (Inr [leafs ! nat (1 - i)])"
  using length_guard_pow2 [of 1] by (subst open_rec.simps) simp

lemma open_rec_left:
  assumes "length leafs = 2 ^ Suc (Suc k)" and "0 \<le> i" and "2 * i < int (length leafs)"
    and "open_rec H i (take (length leafs div 2) leafs) = Some (Inr ps)"
    and "commit_rec H (drop (length leafs div 2) leafs) = Some (Inr d)"
  shows "open_rec H i leafs = Some (Inr (ps @ [d]))"
proof -
  have g: "length_guard (length leafs)"
    using assms(1) length_guard_pow2 [of "Suc (Suc k)"] by simp
  have n2: "length leafs \<noteq> 2" using assms(1) by simp
  have v: "i < int (length leafs)" using assms(2,3) by linarith
  show ?thesis
    by (subst open_rec.simps) (simp add: g n2 v assms(2-5))
qed

lemma open_rec_right:
  assumes "length leafs = 2 ^ Suc (Suc k)" and "i < int (length leafs)"
    and "\<not> 2 * i < int (length leafs)"
    and "open_rec H (i - int (length leafs div 2)) (drop (length leafs div 2) leafs) = Some (Inr ps)"
    and "commit_rec H (take (length leafs div 2) leafs) = Some (Inr d)"
  shows "open_rec H i leafs = Some (Inr (ps @ [d]))"
proof -
  have g: "length_guard (length leafs)"
    using assms(1) length_guard_pow2 [of "Suc (Suc k)"] by simp
  have n2: "length leafs \<noteq> 2" using assms(1) by simp
  have v: "0 \<le> i" using assms(3) by linarith
  show ?thesis
    by (subst open_rec.simps) (simp add: g n2 v assms(2-5))
qed

lemma open_rec_fold:
  "length leafs = 2 ^ Suc k \<Longrightarrow> 0 \<le> i \<Longrightarrow> i < 2 ^ Suc k \<Longrightarrow>
     \<exists>p c. open_rec H i leafs = Some (Inr p) \<and> length p = Suc k \<and>
           commit_rec H leafs = Some (Inr c) \<and> fold_path H i p (leafs ! nat i) = c"
proof (induction k arbitrary: leafs i)
  case 0
  then obtain a b where ab: "leafs = [a, b]"
    by (cases leafs; cases "tl leafs") auto
  have o: "open_rec H i leafs = Some (Inr [leafs ! nat (1 - i)])"
    using 0 by (simp add: open_rec_two)
  have c: "commit_rec H leafs = Some (Inr (H (a @ b)))"
    using commit_rec_split [of leafs 0 H a b] by (simp add: ab commit_rec_single)
  from 0 have "i = 0 \<or> i = 1" by auto
  then have "fold_path H i [leafs ! nat (1 - i)] (leafs ! nat i) = H (a @ b)"
    by (auto simp: ab)
  with o c show ?case by simp
next
  case (Suc k)
  let ?h = "length leafs div 2"
  let ?L = "take ?h leafs" and ?R = "drop ?h leafs"
  have h: "?h = 2 ^ Suc k" using Suc.prems(1) by simp
  have lenL: "length ?L = 2 ^ Suc k" and lenR: "length ?R = 2 ^ Suc k"
    using Suc.prems(1) by (simp_all add: h)
  have ih: "int ?h = 2 ^ Suc k" using h by simp
  show ?case
  proof (cases "2 * i < int (length leafs)")
    case True
    then have il: "i < 2 ^ Suc k" using Suc.prems(1) by simp
    from Suc.IH [OF lenL Suc.prems(2) il] obtain p cl where
      p: "open_rec H i ?L = Some (Inr p)" "length p = Suc k"
        "commit_rec H ?L = Some (Inr cl)" "fold_path H i p (?L ! nat i) = cl" by blast
    from commit_rec_total [OF lenR] obtain cr where cr: "commit_rec H ?R = Some (Inr cr)" ..
    have o: "open_rec H i leafs = Some (Inr (p @ [cr]))"
      by (rule open_rec_left [OF Suc.prems(1,2) True p(1) cr])
    have c: "commit_rec H leafs = Some (Inr (H (cl @ cr)))"
      by (rule commit_rec_split [OF Suc.prems(1) p(3) cr])
    have "nat i < ?h" using il Suc.prems(2) ih by linarith
    then have e: "?L ! nat i = leafs ! nat i" by simp
    have "i div 2 ^ length p = 0" using il Suc.prems(2) p(2) by simp
    then have "fold_path H i (p @ [cr]) (leafs ! nat i) = H (cl @ cr)"
      using p(4) e Suc.prems(2) by (simp add: fold_path_append)
    with o c p(2) show ?thesis by simp
  next
    case False
    then have ge: "2 ^ Suc k \<le> i" using Suc.prems(1) by simp
    have lt: "i < int (length leafs)" using Suc.prems(1,3) by simp
    have j0: "0 \<le> i - 2 ^ Suc k" using ge by simp
    have j1: "i - 2 ^ Suc k < 2 ^ Suc k" using Suc.prems(3) by simp
    from Suc.IH [OF lenR j0 j1] obtain p cr where
      p: "open_rec H (i - 2 ^ Suc k) ?R = Some (Inr p)" "length p = Suc k"
        "commit_rec H ?R = Some (Inr cr)"
        "fold_path H (i - 2 ^ Suc k) p (?R ! nat (i - 2 ^ Suc k)) = cr" by blast
    from commit_rec_total [OF lenL] obtain cl where cl: "commit_rec H ?L = Some (Inr cl)" ..
    have p1: "open_rec H (i - int ?h) ?R = Some (Inr p)" using p(1) ih by simp
    have o: "open_rec H i leafs = Some (Inr (p @ [cl]))"
      by (rule open_rec_right [OF Suc.prems(1) lt False p1 cl])
    have c: "commit_rec H leafs = Some (Inr (H (cl @ cr)))"
      by (rule commit_rec_split [OF Suc.prems(1) cl p(3)])
    have a: "?h + nat (i - 2 ^ Suc k) = nat i" using ge ih by linarith
    have "nat i < length leafs" using lt Suc.prems(2) by linarith
    with a have "?h + nat (i - 2 ^ Suc k) \<le> length leafs" by simp
    then have e: "?R ! nat (i - 2 ^ Suc k) = leafs ! nat i"
      using a by (simp add: nth_drop)
    have s: "fold_path H i p (leafs ! nat i) = cr"
      using fold_path_shift [of H i p "leafs ! nat i"] p(2,4) e by simp
    have "(i - 2 ^ Suc k) div 2 ^ Suc k = 0"
      using j0 j1 by (rule div_pos_pos_trivial)
    moreover have "(i - 2 ^ Suc k + 2 ^ Suc k) div 2 ^ Suc k = (i - 2 ^ Suc k) div 2 ^ Suc k + 1"
      by (rule div_add_self2) simp
    ultimately have "i div 2 ^ Suc k = 1" by simp
    then have "fold_path H i (p @ [cl]) (leafs ! nat i) = H (cl @ cr)"
      using s Suc.prems(2) p(2) by (simp add: fold_path_append)
    with o c p(2) show ?thesis by simp
  qed
qed

section \<open>Degenerate inputs, totality and the round trip\<close>

text \<open>
  A single leaf passes both assertions of \<^verbatim>\<open>open_\<close> with index 0, is not of length 2,
  and \<open>0 < 1/2\<close> sends the recursion into the empty left half, where the index
  assertion fails. An empty path passes the assertion of \<^verbatim>\<open>verify_\<close> with index 0 and
  then \<^verbatim>\<open>path[0]\<close> raises.
\<close>

lemma open_rec_single:
  "open_rec H 0 [d] = Some (Inl (AssertionError ''cannot open invalid index''))"
  by (simp add: open_rec.simps length_guard_def)

lemma verify_rec_Nil: "verify_rec H root 0 [] leaf = Some (Inl IndexError)"
  by (simp add: verify_rec.simps)

lemma open_rec_returns: "length leafs = 2 ^ k \<Longrightarrow> \<exists>r. open_rec H i leafs = Some r"
proof (cases "0 \<le> i \<and> i < int (length leafs)")
  case False
  then show ?thesis using open_rec_invalid [of i leafs H] by auto
next
  case True
  assume len: "length leafs = 2 ^ k"
  show ?thesis
  proof (cases k)
    case 0
    with len obtain d where "leafs = [d]" by (cases leafs) auto
    moreover from this True have "i = 0" by simp
    ultimately show ?thesis by (simp add: open_rec_single)
  next
    case (Suc j)
    with len True have "i < 2 ^ Suc j" by simp
    with open_rec_fold [of leafs j i H] len Suc True show ?thesis by auto
  qed
qed

lemma verify_rec_returns: "\<exists>r. verify_rec H root i path leaf = Some r"
proof (cases "0 \<le> i \<and> i < 2 ^ length path")
  case False
  then show ?thesis by (simp add: verify_rec_invalid)
next
  case True
  show ?thesis
  proof (cases "path = []")
    case True
    with \<open>0 \<le> i \<and> i < 2 ^ length path\<close> have "i = 0" by simp
    with True show ?thesis by (simp add: verify_rec_Nil)
  next
    case False
    with True show ?thesis by (simp add: verify_rec_fold)
  qed
qed

lemma not_pow2_rejected:
  assumes "0 < length leafs" and "\<not> (\<exists>k. length leafs = 2 ^ k)"
  shows "commit_rec H leafs = Some (Inl (AssertionError ''length must be power of two''))"
    and "open_rec H i leafs = Some (Inl (AssertionError ''length must be power of two''))"
proof -
  have g: "\<not> length_guard (length leafs)" using assms by (simp add: length_guard_iff)
  show "commit_rec H leafs = Some (Inl (AssertionError ''length must be power of two''))"
    by (subst commit_rec.simps) (simp add: g)
  show "open_rec H i leafs = Some (Inl (AssertionError ''length must be power of two''))"
    by (subst open_rec.simps) (simp add: g)
qed

lemma open_rec_Nil:
  "open_rec H i [] = Some (Inl (AssertionError ''cannot open invalid index''))"
  by (subst open_rec.simps) (simp add: length_guard_def)

lemma round_trip_rec:
  assumes "length leafs = 2 ^ Suc k" and "0 \<le> i" and "i < 2 ^ Suc k"
  shows "\<exists>root path. commit_rec H leafs = Some (Inr root) \<and>
           open_rec H i leafs = Some (Inr path) \<and> length path = Suc k \<and>
           verify_rec H root i path (leafs ! nat i) = Some (Inr True)"
proof -
  from open_rec_fold [OF assms] obtain p c where
    p: "open_rec H i leafs = Some (Inr p)" "length p = Suc k"
      "commit_rec H leafs = Some (Inr c)" "fold_path H i p (leafs ! nat i) = c" by blast
  have "p \<noteq> []" using p(2) by auto
  moreover have "i < 2 ^ length p" using assms(3) p(2) by simp
  ultimately have "verify_rec H c i p (leafs ! nat i) = Some (Inr True)"
    using assms(2) p(4) by (simp add: verify_rec_fold)
  with p show ?thesis by blast
qed

lemma round_trip:
  assumes "length E = 2 ^ Suc k" and "0 \<le> i" and "i < 2 ^ Suc k"
  shows "\<exists>root path. commit H bytes_of E = Some (Inr root) \<and>
           open_data H bytes_of i E = Some (Inr path) \<and> length path = Suc k \<and>
           verify H bytes_of root i path (E ! nat i) = Some (Inr True)"
proof -
  let ?leafs = "map (\<lambda>da. H (bytes_of da)) E"
  have len: "length ?leafs = 2 ^ Suc k" using assms(1) by simp
  have "nat i < length E" using assms by (simp add: nat_less_iff)
  then have "?leafs ! nat i = H (bytes_of (E ! nat i))" by simp
  with round_trip_rec [OF len assms(2,3), of H] show ?thesis
    by (simp add: commit_def open_data_def verify_def)
qed

section \<open>Order of evaluation\<close>

text \<open>
  The bodies with the real hash and the functions themselves are the functions; an
  index out of range is rejected by a body whatever it is given to call; and a body
  calls \<^verbatim>\<open>commit_\<close> and \<^verbatim>\<open>open_\<close> on the halves only, \<^verbatim>\<open>verify_\<close> on the path without its
  head only.
\<close>

lemma commit_rec_body_eq:
  "commit_rec H leafs = commit_rec_body (\<lambda>x. Some (H x)) (commit_rec H) leafs"
  by (subst commit_rec.simps) (simp add: commit_rec_body_def)

lemma open_rec_body_eq:
  "open_rec H i leafs = open_rec_body (open_rec H) (commit_rec H) i leafs"
  by (subst open_rec.simps) (simp add: open_rec_body_def)

lemma verify_rec_body_eq:
  "verify_rec H root i path leaf =
     verify_rec_body (\<lambda>x. Some (H x)) (verify_rec H) root i path leaf"
  by (subst verify_rec.simps) (simp add: verify_rec_body_def)






lemma commit_rec_body_calls:
  assumes "length leafs = 2 ^ Suc k"
    and "\<And>xs. length xs = 2 ^ k \<Longrightarrow> c xs = c' xs"
  shows "commit_rec_body hash_call c leafs = commit_rec_body hash_call c' leafs"
proof -
  have h: "length leafs div 2 = 2 ^ k" using assms(1) by simp
  have "c (take (length leafs div 2) leafs) = c' (take (length leafs div 2) leafs)"
    and "c (drop (length leafs div 2) leafs) = c' (drop (length leafs div 2) leafs)"
    using assms(1) by (simp_all add: assms(2) h)
  then show ?thesis by (simp add: commit_rec_body_def)
qed

lemma commit_rec_body_single:
  "length leafs = 1 \<Longrightarrow> commit_rec_body hash_call c leafs = Some (Inr (leafs ! 0))"
  by (simp add: commit_rec_body_def length_guard_def)

lemma open_rec_body_calls:
  assumes "length leafs = 2 ^ Suc k"
    and "\<And>j xs. length xs = 2 ^ k \<Longrightarrow> oc j xs = oc' j xs"
    and "\<And>xs. length xs = 2 ^ k \<Longrightarrow> cc xs = cc' xs"
  shows "open_rec_body oc cc i leafs = open_rec_body oc' cc' i leafs"
proof -
  have h: "length leafs div 2 = 2 ^ k" using assms(1) by simp
  have l: "length (take (length leafs div 2) leafs) = 2 ^ k"
    and r: "length (drop (length leafs div 2) leafs) = 2 ^ k"
    using assms(1) by (simp_all add: h)
  show ?thesis
    unfolding open_rec_body_def
    by (simp only: assms(2) [OF l] assms(2) [OF r] assms(3) [OF l] assms(3) [OF r])
qed

lemma verify_rec_body_calls:
  assumes "path \<noteq> []"
    and "\<And>r j p l. Suc (length p) = length path \<Longrightarrow> vc r j p l = vc' r j p l"
  shows "verify_rec_body hash_call vc root i path leaf =
         verify_rec_body hash_call vc' root i path leaf"
proof -
  have "Suc (length (drop 1 path)) = length path" using assms(1) by (cases path) simp_all
  from assms(2) [OF this]
  have "vc root (drop_bit 1 i) (drop 1 path) = vc' root (drop_bit 1 i) (drop 1 path)"
    by (intro ext)
  then show ?thesis
    unfolding verify_rec_body_def by (simp only:)
qed

section \<open>The claims\<close>

text \<open>
  C1 (round trip). For every element sequence of power-of-two length and every valid
  index, \<^verbatim>\<open>verify(commit(E), i, open(i, E), E[i])\<close> should be true. On two or more elements
  it is: lemma \<open>round_trip\<close> above. On the single-element sequence \<open>[e]\<close> with index 0 the
  expression, its arguments evaluated from left to right, raises the
  \<^verbatim>\<open>AssertionError\<close> of \<^verbatim>\<open>open\<close> instead of returning true.
\<close>

theorem single_leaf_round_trip_raises:
  "Option.bind (commit H bytes_of [e]) (\<lambda>r. case r of Inl err \<Rightarrow> Some (Inl err) | Inr root \<Rightarrow>
     Option.bind (open_data H bytes_of 0 [e]) (\<lambda>p. case p of Inl err \<Rightarrow> Some (Inl err) | Inr path \<Rightarrow>
       verify H bytes_of root 0 path ([e] ! 0)))
   = Some (Inl (AssertionError ''cannot open invalid index''))"
  by (simp add: commit_def open_data_def commit_rec_single open_rec_single)

text \<open>
  C2 (single leaf, open). For a single-element sequence, \<^verbatim>\<open>open(0, E)\<close> should return the
  empty path. The code raises \<^verbatim>\<open>AssertionError: cannot open invalid index\<close>, both in
  \<^verbatim>\<open>open_\<close> on one digest and in the wrapper on one element.
\<close>

theorem open_single_leaf_raises:
  "open_rec H 0 [d] = Some (Inl (AssertionError ''cannot open invalid index'')) \<and>
   open_data H bytes_of 0 [e] = Some (Inl (AssertionError ''cannot open invalid index''))"
  by (simp add: open_data_def open_rec_single)

text \<open>
  C3 (single leaf, verify). With an empty path and index 0, \<^verbatim>\<open>verify\<close> should compare
  the leaf digest with the root. The code passes its assertion (\<open>0 < 1 << 0\<close>) and then
  raises \<^verbatim>\<open>IndexError\<close> on \<^verbatim>\<open>path[0]\<close>, whatever the root and the leaf.
\<close>

theorem verify_empty_path_raises:
  "verify_rec H root 0 [] leaf = Some (Inl IndexError) \<and>
   verify H bytes_of root 0 [] e = Some (Inl IndexError)"
  by (simp add: verify_def verify_rec_Nil)

text \<open>
  C4 (rejection of bad lengths). A sequence whose length is zero or not a power of two
  should be rejected by the length assertion of \<^verbatim>\<open>commit\<close> and \<^verbatim>\<open>open\<close>. Lengths that are
  neither zero nor a power of two are (lemma \<open>not_pow2_rejected\<close>), and \<^verbatim>\<open>open\<close> rejects the
  empty sequence through its index assertion (lemma \<open>open_rec_Nil\<close>). But the guard holds
  for length 0, and \<^verbatim>\<open>commit\<close> on the empty sequence does not return at all.
\<close>

theorem commit_empty_never_returns:
  "length_guard (length ([] :: bytes list)) \<and> commit_rec H [] = None \<and>
   commit H bytes_of [] = None"
  by (simp add: commit_def commit_rec_Nil length_guard_0)

text \<open>
  C5 (commit). On a digest sequence of length \<open>2 ^ k\<close>: for \<open>k = 0\<close>, \<^verbatim>\<open>commit_\<close> returns
  the single digest unchanged; for \<open>k > 0\<close>, the two halves cut at \<open>length div 2\<close> have
  \<open>2 ^ (k - 1)\<close> entries each, both commit to digests \<open>l\<close> and \<open>r\<close>, and the result is
  \<open>H (l @ r)\<close>, left digest first.
\<close>

theorem commit_rec_cases:
  "length leafs = 2 ^ k \<Longrightarrow>
     (k = 0 \<longrightarrow> commit_rec H leafs = Some (Inr (leafs ! 0))) \<and>
     (0 < k \<longrightarrow>
        length (take (length leafs div 2) leafs) = 2 ^ (k - 1) \<and>
        length (drop (length leafs div 2) leafs) = 2 ^ (k - 1) \<and>
        (\<exists>l r. commit_rec H (take (length leafs div 2) leafs) = Some (Inr l) \<and>
               commit_rec H (drop (length leafs div 2) leafs) = Some (Inr r) \<and>
               commit_rec H leafs = Some (Inr (H (l @ r)))))"
proof (cases k)
  case 0
  assume "length leafs = 2 ^ k"
  with 0 obtain d where "leafs = [d]" by (cases leafs) auto
  with 0 show ?thesis by (simp add: commit_rec_single)
next
  case (Suc j)
  assume len: "length leafs = 2 ^ k"
  have h: "length leafs div 2 = 2 ^ j" using len Suc by simp
  have lenL: "length (take (length leafs div 2) leafs) = 2 ^ j"
    and lenR: "length (drop (length leafs div 2) leafs) = 2 ^ j"
    using len Suc by (simp_all add: h)
  from commit_rec_total [OF lenL] obtain l where
    l: "commit_rec H (take (length leafs div 2) leafs) = Some (Inr l)" ..
  from commit_rec_total [OF lenR] obtain r where
    r: "commit_rec H (drop (length leafs div 2) leafs) = Some (Inr r)" ..
  have "commit_rec H leafs = Some (Inr (H (l @ r)))"
    using commit_rec_split [of leafs j H l r] len Suc l r by simp
  with l r lenL lenR Suc show ?thesis by auto
qed

theorem commit_rec_cases_witness:
  "length [ [1], [2], [3], [4 :: byte] ] = 2 ^ 2 \<and>
   commit_rec rev [ [1], [2], [3], [4] ] = Some (Inr [3, 4, 1, 2]) \<and>
   length [ [7 :: byte] ] = 2 ^ 0 \<and> commit_rec rev [ [7] ] = Some (Inr [7])"
  using commit_rec_cases [of "[ [1], [2], [3], [4] ]" 2 rev]
    commit_rec_cases [of "[ [1], [2] ]" 1 rev] commit_rec_cases [of "[ [3], [4] ]" 1 rev]
    commit_rec_cases [of "[ [1] ]" 0 rev] commit_rec_cases [of "[ [2] ]" 0 rev]
    commit_rec_cases [of "[ [3] ]" 0 rev] commit_rec_cases [of "[ [4] ]" 0 rev]
    commit_rec_cases [of "[ [7] ]" 0 rev]
  by simp

text \<open>
  C6 (open). On a digest sequence of length \<open>2 ^ k\<close> and a valid index \<open>i\<close>: for two leaves
  the path is the one digest \<^verbatim>\<open>leafs[1 - i]\<close>; for four or more, if \<open>i\<close> is in the left half the path is
  the path of \<open>i\<close> in the left half followed by the commit digest of the right half, and
  otherwise the path of \<open>i - n/2\<close> in the right half followed by the commit digest of the
  left half.
\<close>

theorem open_rec_cases:
  "length leafs = 2 ^ k \<Longrightarrow> 0 \<le> i \<Longrightarrow> i < 2 ^ k \<Longrightarrow>
     (k = 1 \<longrightarrow> open_rec H i leafs = Some (Inr [leafs ! nat (1 - i)])) \<and>
     (2 \<le> k \<and> i < int (length leafs div 2) \<longrightarrow>
        (\<exists>ps d. open_rec H i (take (length leafs div 2) leafs) = Some (Inr ps) \<and>
                commit_rec H (drop (length leafs div 2) leafs) = Some (Inr d) \<and>
                open_rec H i leafs = Some (Inr (ps @ [d])))) \<and>
     (2 \<le> k \<and> int (length leafs div 2) \<le> i \<longrightarrow>
        (\<exists>ps d. open_rec H (i - int (length leafs div 2)) (drop (length leafs div 2) leafs)
                  = Some (Inr ps) \<and>
                commit_rec H (take (length leafs div 2) leafs) = Some (Inr d) \<and>
                open_rec H i leafs = Some (Inr (ps @ [d]))))"
proof (intro conjI impI)
  assume "length leafs = 2 ^ k" "0 \<le> i" "i < 2 ^ k" "k = 1"
  then show "open_rec H i leafs = Some (Inr [leafs ! nat (1 - i)])"
    by (simp add: open_rec_two)
next
  assume len: "length leafs = 2 ^ k" and i0: "0 \<le> i" and i1: "i < 2 ^ k"
    and c: "2 \<le> k \<and> i < int (length leafs div 2)"
  then obtain j where k: "k = Suc (Suc j)" by (cases k; cases "k - 1") auto
  have h: "length leafs div 2 = 2 ^ Suc j" using len k by simp
  have lenL: "length (take (length leafs div 2) leafs) = 2 ^ Suc j"
    and lenR: "length (drop (length leafs div 2) leafs) = 2 ^ Suc j"
    using len k by (simp_all add: h)
  have il: "i < 2 ^ Suc j" using c h by simp
  from open_rec_fold [OF lenL i0 il] obtain ps where
    ps: "open_rec H i (take (length leafs div 2) leafs) = Some (Inr ps)" by blast
  from commit_rec_total [OF lenR] obtain d where
    d: "commit_rec H (drop (length leafs div 2) leafs) = Some (Inr d)" ..
  have "2 * i < int (length leafs)" using il len k by simp
  then have "open_rec H i leafs = Some (Inr (ps @ [d]))"
    using open_rec_left [of leafs j i H ps d] len k i0 ps d by simp
  with ps d show "\<exists>ps d. open_rec H i (take (length leafs div 2) leafs) = Some (Inr ps) \<and>
                commit_rec H (drop (length leafs div 2) leafs) = Some (Inr d) \<and>
                open_rec H i leafs = Some (Inr (ps @ [d]))" by blast
next
  assume len: "length leafs = 2 ^ k" and i0: "0 \<le> i" and i1: "i < 2 ^ k"
    and c: "2 \<le> k \<and> int (length leafs div 2) \<le> i"
  then obtain j where k: "k = Suc (Suc j)" by (cases k; cases "k - 1") auto
  have h: "length leafs div 2 = 2 ^ Suc j" using len k by simp
  have lenL: "length (take (length leafs div 2) leafs) = 2 ^ Suc j"
    and lenR: "length (drop (length leafs div 2) leafs) = 2 ^ Suc j"
    using len k by (simp_all add: h)
  have j0: "0 \<le> i - int (length leafs div 2)" using c by simp
  have j1: "i - int (length leafs div 2) < 2 ^ Suc j" using i1 k h by simp
  from open_rec_fold [OF lenR j0 j1] obtain ps where
    ps: "open_rec H (i - int (length leafs div 2)) (drop (length leafs div 2) leafs)
           = Some (Inr ps)" by blast
  from commit_rec_total [OF lenL] obtain d where
    d: "commit_rec H (take (length leafs div 2) leafs) = Some (Inr d)" ..
  have "\<not> 2 * i < int (length leafs)" using c h len k by simp
  moreover have "i < int (length leafs)" using i1 len by simp
  ultimately have "open_rec H i leafs = Some (Inr (ps @ [d]))"
    using open_rec_right [of leafs j i H ps d] len k ps d by simp
  with ps d show "\<exists>ps d. open_rec H (i - int (length leafs div 2))
                   (drop (length leafs div 2) leafs) = Some (Inr ps) \<and>
                commit_rec H (take (length leafs div 2) leafs) = Some (Inr d) \<and>
                open_rec H i leafs = Some (Inr (ps @ [d]))" by blast
qed

theorem open_rec_cases_witness:
  "length [ [1], [2], [3], [4 :: byte] ] = 2 ^ 2 \<and> (0 :: int) \<le> 2 \<and> (2 :: int) < 2 ^ 2 \<and>
   int (length [ [1], [2], [3], [4 :: byte] ] div 2) \<le> 2 \<and>
   open_rec rev 2 [ [1], [2], [3], [4] ] = Some (Inr [ [4], [2, 1] ]) \<and>
   open_rec rev 1 [ [1], [2], [3], [4] ] = Some (Inr [ [1], [4, 3] ])"
  using open_rec_cases [of "[ [1], [2], [3], [4] ]" 2 2 rev]
    open_rec_cases [of "[ [1], [2], [3], [4] ]" 2 1 rev]
    open_rec_cases [of "[ [3], [4] ]" 1 0 rev] open_rec_cases [of "[ [1], [2] ]" 1 1 rev]
    commit_rec_split [of "[ [1], [2] ]" 0 rev "[1]" "[2]"]
    commit_rec_split [of "[ [3], [4] ]" 0 rev "[3]" "[4]"]
  by (auto simp: commit_rec_single)

text \<open>
  C7 (verify). With a non-empty path and \<open>0 \<le> i < 2 ^ length path\<close>, \<^verbatim>\<open>verify_\<close> hashes the
  leaf with the head of the path, leaf first when \<open>i\<close> is even and head first when \<open>i\<close>
  is odd; on the last entry it compares that digest with the root, and otherwise it
  goes on with the index shifted right by one bit, the head dropped and that digest as
  the leaf. Altogether the result is the comparison of the root with the fold of the
  whole path.
\<close>

theorem verify_rec_cases:
  "path \<noteq> [] \<Longrightarrow> 0 \<le> i \<Longrightarrow> i < 2 ^ length path \<Longrightarrow>
     (length path = 1 \<longrightarrow>
        verify_rec H root i path leaf =
          Some (Inr (root = (if i mod 2 = 0 then H (leaf @ path ! 0) else H (path ! 0 @ leaf))))) \<and>
     (1 < length path \<longrightarrow>
        verify_rec H root i path leaf =
          verify_rec H root (drop_bit 1 i) (drop 1 path)
            (if i mod 2 = 0 then H (leaf @ path ! 0) else H (path ! 0 @ leaf))) \<and>
     verify_rec H root i path leaf = Some (Inr (root = fold_path H i path leaf))"
proof (intro conjI impI)
  assume a: "path \<noteq> []" "0 \<le> i" "i < 2 ^ length path"
  then show "verify_rec H root i path leaf = Some (Inr (root = fold_path H i path leaf))"
    by (rule verify_rec_fold)
  {
    assume "length path = 1"
    then obtain p where "path = [p]" by (cases path) auto
    with a show "verify_rec H root i path leaf =
          Some (Inr (root = (if i mod 2 = 0 then H (leaf @ path ! 0) else H (path ! 0 @ leaf))))"
      using verify_rec_one [of i H root p leaf] by simp
  }
  {
    assume "1 < length path"
    then obtain p q ps where "path = p # q # ps" by (cases path; cases "tl path") auto
    with a show "verify_rec H root i path leaf =
          verify_rec H root (drop_bit 1 i) (drop 1 path)
            (if i mod 2 = 0 then H (leaf @ path ! 0) else H (path ! 0 @ leaf))"
      using verify_rec_more [of i p q ps H root leaf] by (simp add: drop_bit_Suc)
  }
qed

theorem verify_rec_cases_witness:
  "[ [4], [2, 1 :: byte] ] \<noteq> [] \<and> (0 :: int) \<le> 2 \<and> (2 :: int) < 2 ^ length [ [4], [2, 1 :: byte] ] \<and>
   verify_rec rev [3, 4, 1, 2] 2 [ [4], [2, 1] ] [3] = Some (Inr True) \<and>
   verify_rec rev [3, 4, 1, 2] 2 [ [4], [2, 1] ] [3] = verify_rec rev [3, 4, 1, 2] 1 [ [2, 1] ] [4, 3] \<and>
   verify_rec rev [3, 4, 1, 2] 1 [ [2, 1] ] [4, 3] = Some (Inr ([3, 4, 1, 2] = rev ([2, 1] @ [4, 3]))) \<and>
   verify_rec rev [3, 4, 1, 2] 3 [ [4], [2, 1] ] [3] = Some (Inr False)"
  using verify_rec_cases [of "[ [4], [2, 1] ]" 2 rev "[3, 4, 1, 2]" "[3]"]
    verify_rec_cases [of "[ [2, 1] ]" 1 rev "[3, 4, 1, 2]" "[4, 3]"]
    verify_rec_cases [of "[ [4], [2, 1] ]" 3 rev "[3, 4, 1, 2]" "[3]"]
  by (auto simp add: drop_bit_Suc)




text \<open>
  C9 (path length). The path returned by \<^verbatim>\<open>open\<close> on \<open>n = 2 ^ k\<close> elements should have
  \<open>k\<close> entries. For \<open>k \<ge> 1\<close> it has (lemma \<open>round_trip\<close>). For one element, \<open>k = 0\<close>,
  no path of length 0, and no path at all, is returned.
\<close>

theorem open_single_leaf_no_path:
  "\<not> (\<exists>path. open_data H bytes_of 0 [e] = Some (Inr path) \<and> length path = 0)"
  by (simp add: open_data_def open_rec_single)

text \<open>
  C10 (termination), as stated, fails in its reason for \<^verbatim>\<open>open_\<close>: on a single digest,
  a sequence of length \<open>2 ^ 0\<close>, with index 0, the recursive call of \<^verbatim>\<open>open_\<close> is on the
  empty left half, which is not a non-empty half of power-of-two length. Given a callee
  that answers on the empty list only, the body yields that answer; given \<^verbatim>\<open>open_\<close>
  itself except that it never returns on the empty list, the body does not return.
\<close>

theorem open_single_leaf_recurses_on_empty:
  "length [ [1 :: byte] ] = 2 ^ 0 \<and>
   open_rec_body (\<lambda>j xs. if xs = [] then Some (Inl IndexError) else None) Map.empty 0 [ [1] ]
     = Some (Inl IndexError) \<and>
   open_rec_body (\<lambda>j xs. if xs = [] then None else open_rec rev j xs) (commit_rec rev) 0 [ [1] ]
     = None \<and>
   open_rec rev 0 [ [1] ] = open_rec_body (open_rec rev) (commit_rec rev) 0 [ [1] ]"
  using open_rec_body_eq [of rev 0 "[ [1] ]"]
  by (simp add: open_rec_body_def length_guard_def)

text \<open>
  C10 (termination), amended. On a sequence of length \<open>2 ^ k\<close>, \<^verbatim>\<open>commit_\<close> returns a
  digest and \<^verbatim>\<open>open_\<close> returns or raises, for every index; on a non-empty path
  \<^verbatim>\<open>verify_\<close> returns or raises. \<^verbatim>\<open>commit_\<close> on one digest calls nothing; on
  \<open>2 ^ Suc k\<close> digests \<^verbatim>\<open>commit_\<close> and \<^verbatim>\<open>open_\<close> call \<^verbatim>\<open>commit_\<close> and \<^verbatim>\<open>open_\<close> on
  sequences of length \<open>2 ^ k\<close> only (the halves: shorter, non-empty, of power-of-two
  length), and \<^verbatim>\<open>verify_\<close> on a non-empty path calls itself on paths one entry shorter
  only: the bodies yield the same for any two callees that agree on such arguments.
  Nothing is said of the call \<^verbatim>\<open>open_\<close> makes on a single digest. The guard accepts
  length 0, and \<^verbatim>\<open>commit_\<close> on the empty sequence never returns.
\<close>

theorem recursion_returns_on_halves:
  "(length leafs = 2 ^ k \<longrightarrow> (\<exists>d. commit_rec H leafs = Some (Inr d))) \<and>
   (length leafs = 2 ^ k \<longrightarrow> (\<exists>r. open_rec H i leafs = Some r)) \<and>
   (path \<noteq> [] \<longrightarrow> (\<exists>r. verify_rec H root i path leaf = Some r)) \<and>
   (length leafs = 2 ^ 0 \<longrightarrow>
      commit_rec_body hash_call cc leafs = Some (Inr (leafs ! 0))) \<and>
   (length leafs = 2 ^ Suc k \<and> (\<forall>xs. length xs = 2 ^ k \<longrightarrow> cc xs = cc' xs) \<longrightarrow>
      commit_rec_body hash_call cc leafs = commit_rec_body hash_call cc' leafs) \<and>
   (length leafs = 2 ^ Suc k \<and> (\<forall>j xs. length xs = 2 ^ k \<longrightarrow> oc j xs = oc' j xs) \<and>
      (\<forall>xs. length xs = 2 ^ k \<longrightarrow> cc xs = cc' xs) \<longrightarrow>
      open_rec_body oc cc i leafs = open_rec_body oc' cc' i leafs) \<and>
   (path \<noteq> [] \<and> (\<forall>r j p l. Suc (length p) = length path \<longrightarrow> vc r j p l = vc' r j p l) \<longrightarrow>
      verify_rec_body hash_call vc root i path leaf =
      verify_rec_body hash_call vc' root i path leaf) \<and>
   commit_rec H leafs = commit_rec_body (\<lambda>x. Some (H x)) (commit_rec H) leafs \<and>
   open_rec H i leafs = open_rec_body (open_rec H) (commit_rec H) i leafs \<and>
   verify_rec H root i path leaf =
     verify_rec_body (\<lambda>x. Some (H x)) (verify_rec H) root i path leaf \<and>
   length_guard 0 \<and> commit_rec H [] = None"
proof (intro conjI impI)
  show "length leafs = 2 ^ k \<Longrightarrow> \<exists>d. commit_rec H leafs = Some (Inr d)"
    by (rule commit_rec_total)
  show "length leafs = 2 ^ k \<Longrightarrow> \<exists>r. open_rec H i leafs = Some r"
    by (rule open_rec_returns)
  show "\<exists>r. verify_rec H root i path leaf = Some r"
    by (rule verify_rec_returns)
  show "length leafs = 2 ^ 0 \<Longrightarrow> commit_rec_body hash_call cc leafs = Some (Inr (leafs ! 0))"
    by (simp add: commit_rec_body_single)
  show "length leafs = 2 ^ Suc k \<and> (\<forall>xs. length xs = 2 ^ k \<longrightarrow> cc xs = cc' xs) \<Longrightarrow>
      commit_rec_body hash_call cc leafs = commit_rec_body hash_call cc' leafs"
    by (rule commit_rec_body_calls [of leafs k]) simp_all
  show "length leafs = 2 ^ Suc k \<and> (\<forall>j xs. length xs = 2 ^ k \<longrightarrow> oc j xs = oc' j xs) \<and>
      (\<forall>xs. length xs = 2 ^ k \<longrightarrow> cc xs = cc' xs) \<Longrightarrow>
      open_rec_body oc cc i leafs = open_rec_body oc' cc' i leafs"
    by (rule open_rec_body_calls [of leafs k]) simp_all
  show "path \<noteq> [] \<and> (\<forall>r j p l. Suc (length p) = length path \<longrightarrow> vc r j p l = vc' r j p l) \<Longrightarrow>
      verify_rec_body hash_call vc root i path leaf =
      verify_rec_body hash_call vc' root i path leaf"
    by (rule verify_rec_body_calls) simp_all
  show "commit_rec H leafs = commit_rec_body (\<lambda>x. Some (H x)) (commit_rec H) leafs"
    by (rule commit_rec_body_eq)
  show "open_rec H i leafs = open_rec_body (open_rec H) (commit_rec H) i leafs"
    by (rule open_rec_body_eq)
  show "verify_rec H root i path leaf =
     verify_rec_body (\<lambda>x. Some (H x)) (verify_rec H) root i path leaf"
    by (rule verify_rec_body_eq)
  show "length_guard 0" by (rule length_guard_0)
  show "commit_rec H [] = None" by (rule commit_rec_Nil)
qed

theorem recursion_returns_on_halves_witness:
  "length [ [1], [2], [3], [4 :: byte] ] = 2 ^ 2 \<and>
   (\<exists>d. commit_rec rev [ [1], [2], [3], [4] ] = Some (Inr d)) \<and>
   (\<exists>r. open_rec rev 2 [ [1], [2], [3], [4] ] = Some r) \<and>
   [ [4], [2, 1 :: byte] ] \<noteq> [] \<and>
   (\<exists>r. verify_rec rev [3, 4, 1, 2] 2 [ [4], [2, 1] ] [3] = Some r) \<and>
   length [ [7 :: byte] ] = 2 ^ 0 \<and>
   commit_rec_body Map.empty Map.empty [ [7] ] = Some (Inr [7]) \<and>
   length [ [1], [2], [3], [4 :: byte] ] = 2 ^ Suc 1 \<and>
   commit_rec_body (\<lambda>x. Some (rev x)) (commit_rec rev) [ [1], [2], [3], [4] ] =
   commit_rec_body (\<lambda>x. Some (rev x))
     (\<lambda>xs. if length xs = 2 then commit_rec rev xs else None) [ [1], [2], [3], [4] ] \<and>
   open_rec_body (open_rec rev) (commit_rec rev) 2 [ [1], [2], [3], [4] ] =
   open_rec_body (\<lambda>j xs. if length xs = 2 then open_rec rev j xs else None)
     (\<lambda>xs. if length xs = 2 then commit_rec rev xs else None) 2 [ [1], [2], [3], [4] ] \<and>
   verify_rec_body (\<lambda>x. Some (rev x)) (verify_rec rev) [3, 4, 1, 2] 2 [ [4], [2, 1] ] [3] =
   verify_rec_body (\<lambda>x. Some (rev x))
     (\<lambda>r j p l. if length p = 1 then verify_rec rev r j p l else None)
     [3, 4, 1, 2] 2 [ [4], [2, 1] ] [3]"
  using recursion_returns_on_halves
      [where leafs = "[ [1], [2], [3], [4] ]" and k = 2 and H = rev and i = 2
        and path = "[ [4], [2, 1] ]" and root = "[3, 4, 1, 2]" and leaf = "[3]"]
    recursion_returns_on_halves
      [where leafs = "[ [7] ]" and k = 0 and hash_call = Map.empty and cc = Map.empty]
    recursion_returns_on_halves
      [where leafs = "[ [1], [2], [3], [4] ]" and k = 1 and i = 2
        and path = "[ [4], [2, 1] ]" and root = "[3, 4, 1, 2]" and leaf = "[3]"
        and hash_call = "\<lambda>x. Some (rev x)" and cc = "commit_rec rev"
        and cc' = "\<lambda>xs. if length xs = 2 then commit_rec rev xs else None"
        and oc = "open_rec rev"
        and oc' = "\<lambda>j xs. if length xs = 2 then open_rec rev j xs else None"
        and vc = "verify_rec rev"
        and vc' = "\<lambda>r j p l. if length p = 1 then verify_rec rev r j p l else None"]
  by (auto simp add: length_guard_def)

end
